theory Spec2Isabelle
  imports Main "HOL-Library.Multiset"
begin

section \<open>Data model\<close>

text \<open>
  \<^verbatim>\<open>Matching_app.py\<close> keeps each subtitle track in a pandas DataFrame with the columns
  \<^verbatim>\<open>start_time\<close>, \<^verbatim>\<open>end_time\<close> and \<^verbatim>\<open>text\<close>. A frame is modelled as the list of its
  rows in positional order. A Python \<^verbatim>\<open>str\<close> is a sequence of Unicode code points and
  is modelled as the list of their numbers. A pandas \<^verbatim>\<open>Timedelta\<close> is a signed count of
  nanoseconds; it is modelled as an \<open>int\<close> (pandas raises on overflow instead of
  wrapping, and subtitle times are far from the 64-bit limits).
\<close>

type_synonym pystr = "nat list"

type_synonym timedelta = int

record segment =
  start_time :: timedelta
  end_time :: timedelta
  seg_text :: pystr

datatype error = SyntaxError | TypeError | IndexError | ValueError | OverflowError

definition seconds :: "int \<Rightarrow> timedelta" where
  "seconds n = n * 1000000000"

definition millis :: "int \<Rightarrow> timedelta" where
  "millis n = n * 1000000"

definition str :: "string \<Rightarrow> pystr" where
  "str s = map of_char s"

section \<open>Language filter: the row loop of \<^verbatim>\<open>parse_srt_to_df\<close>\<close>

text \<open>
  \<^verbatim>\<open>has_kor = bool(re.search(..., text))\<close> with the character class from U+AC00 to
  U+D7A3: some code point of the text lies in the Hangul-syllables block.
\<close>

definition has_kor :: "pystr \<Rightarrow> bool" where
  "has_kor t = list_ex (\<lambda>c. 0xAC00 \<le> c \<and> c \<le> 0xD7A3) t"

text \<open>\<^verbatim>\<open>sub.text.replace('\n', ' ')\<close>\<close>

definition replace_newline :: "pystr \<Rightarrow> pystr" where
  "replace_newline t = map (\<lambda>c. if c = 10 then 32 else c) t"

text \<open>The row that the loop appends for a subtitle it keeps.\<close>

definition row_of :: "segment \<Rightarrow> segment" where
  "row_of sub =
     \<lparr>start_time = start_time sub, end_time = end_time sub,
      seg_text = replace_newline (seg_text sub)\<rparr>"

text \<open>
  The loop over the parsed subtitles (lines 23 to 40). The argument is the sequence
  \<^verbatim>\<open>subs\<close> that \<^verbatim>\<open>pysrt.from_string\<close> returned, each entry with its start and end
  already read as a \<^verbatim>\<open>Timedelta\<close> (the loop formats them as \<^verbatim>\<open>HH:MM:SS.mmm\<close> and the
  caller converts the strings back with \<^verbatim>\<open>pd.to_timedelta\<close>). The two guards before
  the loop (file extension, decoding failure) are about the upload and are not part of
  the model.
\<close>

fun parse_srt_to_df :: "segment list \<Rightarrow> string \<Rightarrow> segment list" where
  "parse_srt_to_df [] lang = []"
| "parse_srt_to_df (sub # subs) lang =
     (let t = replace_newline (seg_text sub);
          hk = has_kor t
      in if lang = ''en'' \<and> hk then parse_srt_to_df subs lang
         else if lang = ''ko'' \<and> \<not> hk then parse_srt_to_df subs lang
         else row_of sub # parse_srt_to_df subs lang)"

section \<open>Session state and the shift\<close>

text \<open>
  \<^verbatim>\<open>st.session_state\<close> holds the two loaded frames, the shifted Korean frame once
  "Apply shift" was pressed, and the result of the last automatic matching. A row of
  that result has an English text and a Korean text; the Korean text of a reference
  row without a match is the missing value \<^verbatim>\<open>NaN\<close>, modelled as \<open>None\<close>. The field
  \<open>csv_file\<close> stands for the data rows of \<^verbatim>\<open>matched_subtitles.csv\<close> on disk.
\<close>

type_synonym pair_row = "pystr \<times> pystr option"

record session =
  eng_df :: "segment list"
  kor_df :: "segment list"
  kor_shifted :: "segment list option"
  matched :: "pair_row list option"
  csv_file :: "(pystr \<times> pystr) list option"

text \<open>
  \<^verbatim>\<open>k2 = kor_df.copy(); k2['start_time'] -= pd.to_timedelta(shift_sec, unit='s')\<close>.
  The offset is taken as the \<^verbatim>\<open>Timedelta\<close> that \<^verbatim>\<open>pd.to_timedelta\<close> made of the
  widget's floating-point number of seconds.
\<close>

definition shift :: "segment list \<Rightarrow> timedelta \<Rightarrow> segment list" where
  "shift df off = map (\<lambda>r. r\<lparr>start_time := start_time r - off\<rparr>) df"

definition apply_shift :: "session \<Rightarrow> timedelta \<Rightarrow> session" where
  "apply_shift s off = s\<lparr>kor_shifted := Some (shift (kor_df s) off)\<rparr>"

section \<open>Automatic matching\<close>

text \<open>
  \<^verbatim>\<open>df.sort_values('start_time').reset_index(drop=True)\<close>: the rows in ascending order of
  \<^verbatim>\<open>start_time\<close>. The model is the stable insertion sort. pandas' default sorting kind
  (quicksort) keeps the input order among rows with equal keys in short frames only
  and may reorder a run of seventeen or more rows with equal keys; it sees only the
  key column, so it permutes the positions of two frames with the same key column in
  the same way. The general theorems below use only that the result is sorted and has
  the same rows; the evaluations of frames with equal keys have two rows.
\<close>

definition sort_values :: "segment list \<Rightarrow> segment list" where
  "sort_values df = sort_key start_time df"

text \<open>
  \<^verbatim>\<open>pd.merge_asof(left, right, left_on, right_on, direction='nearest', tolerance)\<close> is
  pandas' library routine. Its model follows pandas' join kernels for one left key \<open>x\<close>
  against the ascending right keys \<open>rv\<close>:
  \<^item> the backward search takes the last position whose key is \<open>\<le> x\<close> (the scan
    \<^verbatim>\<open>while right_pos < right_size and right_values[right_pos] <= x: right_pos += 1\<close>,
    then one step back) and drops it when \<open>x - key > tolerance\<close>;
  \<^item> the forward search takes the first position whose key is \<open>\<ge> x\<close> (the same scan
    from the right end) and drops it when \<open>key - x > tolerance\<close>;
  \<^item> the nearest search takes the backward position when both exist and
    \<open>bdiff \<le> fdiff\<close>, the forward one when \<open>bdiff > fdiff\<close>, and whichever exists
    otherwise.
  pandas carries the scan position from one left row to the next, which is the same
  on sorted keys; the model restarts the scan for each left row. A missing position
  (pandas' \<open>-1\<close>) is \<open>None\<close>.
\<close>

definition asof_join_backward :: "timedelta list \<Rightarrow> timedelta \<Rightarrow> timedelta \<Rightarrow> nat option" where
  "asof_join_backward rv tol x =
     (let right_pos = length (takeWhile (\<lambda>v. v \<le> x) rv)
      in if right_pos = 0 then None
         else if x - rv ! (right_pos - 1) > tol then None
         else Some (right_pos - 1))"

definition asof_join_forward :: "timedelta list \<Rightarrow> timedelta \<Rightarrow> timedelta \<Rightarrow> nat option" where
  "asof_join_forward rv tol x =
     (let right_pos = length rv - length (takeWhile (\<lambda>v. x \<le> v) (rev rv))
      in if right_pos = length rv then None
         else if rv ! right_pos - x > tol then None
         else Some right_pos)"

definition asof_join_nearest :: "timedelta list \<Rightarrow> timedelta \<Rightarrow> timedelta \<Rightarrow> nat option" where
  "asof_join_nearest rv tol x =
     (case (asof_join_backward rv tol x, asof_join_forward rv tol x) of
        (Some b, Some f) \<Rightarrow> if x - rv ! b \<le> rv ! f - x then Some b else Some f
      | (Some b, None) \<Rightarrow> Some b
      | (None, f) \<Rightarrow> f)"

text \<open>The position in \<open>right\<close> joined to each row of \<open>left\<close>, or \<open>None\<close>.\<close>

definition right_indexer :: "segment list \<Rightarrow> timedelta \<Rightarrow> segment list \<Rightarrow> nat option list" where
  "right_indexer right tol left =
     map (\<lambda>l. asof_join_nearest (map start_time right) tol (start_time l)) left"

text \<open>
  The merged frame has one row per left row, with the joined right row beside it or
  missing values. \<^verbatim>\<open>merge_asof\<close> raises \<^verbatim>\<open>ValueError\<close> when the keys of a side are not
  sorted.
\<close>

definition merge_asof ::
  "segment list \<Rightarrow> segment list \<Rightarrow> timedelta \<Rightarrow> error + (segment \<times> segment option) list" where
  "merge_asof left right tol =
     (if \<not> sorted (map start_time left) then Inl ValueError
      else if \<not> sorted (map start_time right) then Inl ValueError
      else Inr (map2 (\<lambda>l j. (l, map_option ((!) right) j)) left (right_indexer right tol left)))"

text \<open>\<^verbatim>\<open>Series.dropna()\<close> and \<^verbatim>\<open>Series.unique()\<close> (first occurrences, in order).\<close>

fun dropna :: "'a option list \<Rightarrow> 'a list" where
  "dropna [] = []"
| "dropna (None # xs) = dropna xs"
| "dropna (Some x # xs) = x # dropna xs"

definition unique :: "'a list \<Rightarrow> 'a list" where
  "unique xs = rev (remdups (rev xs))"

definition tolerance :: timedelta where
  "tolerance = seconds 1"

text \<open>
  The body of "Run automatic matching" (lines 137 to 172) on the loaded English frame
  and the shifted Korean frame; the result is the frame \<^verbatim>\<open>final\<close>.
\<close>

definition automatic_matching :: "segment list \<Rightarrow> segment list \<Rightarrow> error + pair_row list" where
  "automatic_matching eng shifted =
     (let e2 = sort_values eng;
          k2 = sort_values shifted
      in case merge_asof e2 k2 tolerance of
           Inl err \<Rightarrow> Inl err
         | Inr merged \<Rightarrow>
             (let matched_pairs = map (\<lambda>(l, r). (seg_text l, map_option seg_text r)) merged;
                  matched_kor_times = unique (dropna (map (\<lambda>(l, r). map_option start_time r) merged));
                  unmatched_kor =
                    map seg_text (filter (\<lambda>r. start_time r \<notin> set matched_kor_times) k2);
                  unmatched_kor_df = map (\<lambda>t. ([], Some t)) unmatched_kor
              in Inr (matched_pairs @ unmatched_kor_df)))"

text \<open>
  \<^verbatim>\<open>final.to_csv('matched_subtitles.csv', index=False)\<close>: one line per row; a missing
  value is written as the empty field (pandas' default \<^verbatim>\<open>na_rep=''\<close>).
\<close>

definition to_csv :: "pair_row list \<Rightarrow> (pystr \<times> pystr) list" where
  "to_csv final = map (\<lambda>(e, k). (e, case k of None \<Rightarrow> [] | Some t \<Rightarrow> t)) final"

text \<open>
  The button is offered only when \<^verbatim>\<open>'kor_shifted' in st.session_state\<close>; then the result
  is written to the file and stored in the session.
\<close>

definition run_automatic_matching :: "session \<Rightarrow> error + session" where
  "run_automatic_matching s =
     (case kor_shifted s of
        None \<Rightarrow> Inr s
      | Some shifted \<Rightarrow>
          (case automatic_matching (eng_df s) shifted of
             Inl err \<Rightarrow> Inl err
           | Inr final \<Rightarrow> Inr (s\<lparr>matched := Some final, csv_file := Some (to_csv final)\<rparr>)))"

section \<open>Manual matching\<close>

text \<open>
  The two text fields are read with \<^verbatim>\<open>ast.literal_eval\<close>, Python's parser of literals,
  which raises on text that is not a literal. Its outcome is the input of the model:
  the error, or the value of the literal. The values covered are an integer, \<^verbatim>\<open>None\<close>,
  a string, a bytes literal, and a tuple or a list whose elements are integers, strings
  or \<^verbatim>\<open>None\<close>.
\<close>

datatype pyelem = EInt int | EStr pystr | ENone

datatype pyval =
    VInt int
  | VNone
  | VStr pystr
  | VBytes "nat list"
  | VTuple "pyelem list"
  | VList "pyelem list"

text \<open>
  \<^verbatim>\<open>list(v)\<close>: an integer and \<^verbatim>\<open>None\<close> are not iterable; a string iterates over its
  one-character strings, a bytes value over its bytes as integers.
\<close>

fun py_list :: "pyval \<Rightarrow> error + pyelem list" where
  "py_list (VInt i) = Inl TypeError"
| "py_list VNone = Inl TypeError"
| "py_list (VStr s) = Inr (map (\<lambda>c. EStr [c]) s)"
| "py_list (VBytes bs) = Inr (map (\<lambda>b. EInt (int b)) bs)"
| "py_list (VTuple es) = Inr es"
| "py_list (VList es) = Inr es"

text \<open>
  \<^verbatim>\<open>df.iloc[key]\<close> with a list key. pandas first converts the key to an array of
  machine integers (\<^verbatim>\<open>np.asarray(key, dtype=np.intp)\<close>), element by element:
  \<^item> a Python integer is taken as it is when it fits a signed 64-bit word and raises
    \<^verbatim>\<open>OverflowError\<close> otherwise;
  \<^item> \<^verbatim>\<open>None\<close> raises \<^verbatim>\<open>TypeError\<close>;
  \<^item> a string is handed to numpy's conversion of strings to integers, which accepts
    digit strings and raises \<^verbatim>\<open>ValueError\<close> on others. That conversion is not part of
    the program; it is the parameter \<open>conv\<close> of the model.
  Then a position \<open>\<ge> len(df)\<close> or \<open>< -len(df)\<close> raises \<^verbatim>\<open>IndexError\<close>, and a negative
  position counts from the end.
\<close>

definition intp_of_int :: "int \<Rightarrow> error + int" where
  "intp_of_int i = (if - (2 ^ 63) \<le> i \<and> i < 2 ^ 63 then Inr i else Inl OverflowError)"

fun to_intp :: "(pystr \<Rightarrow> error + int) \<Rightarrow> pyelem \<Rightarrow> error + int" where
  "to_intp conv (EInt i) = intp_of_int i"
| "to_intp conv (EStr s) = conv s"
| "to_intp conv ENone = Inl TypeError"

fun asarray_intp :: "(pystr \<Rightarrow> error + int) \<Rightarrow> pyelem list \<Rightarrow> error + int list" where
  "asarray_intp conv [] = Inr []"
| "asarray_intp conv (e # es) =
     (case to_intp conv e of
        Inl err \<Rightarrow> Inl err
      | Inr i \<Rightarrow> (case asarray_intp conv es of Inl err \<Rightarrow> Inl err | Inr arr \<Rightarrow> Inr (i # arr)))"

definition iloc_pos :: "nat \<Rightarrow> int \<Rightarrow> nat" where
  "iloc_pos n i = nat (if i < 0 then i + int n else i)"

definition iloc :: "(pystr \<Rightarrow> error + int) \<Rightarrow> 'a list \<Rightarrow> pyelem list \<Rightarrow> error + 'a list" where
  "iloc conv df key =
     (case asarray_intp conv key of
        Inl err \<Rightarrow> Inl err
      | Inr arr \<Rightarrow>
          (let n = int (length df)
           in if list_ex (\<lambda>i. i \<ge> n \<or> i < - n) arr then Inl IndexError
              else Inr (map (\<lambda>i. df ! iloc_pos (length df) i) arr)))"

record manual_pair =
  start_time_ENG :: timedelta
  ENG_text :: pystr
  start_time_KOR :: timedelta
  KOR_text :: pystr
  interval :: timedelta

text \<open>
  The body of "Show manual match" (lines 99 to 116). Any exception ends the
  operation with an error message; the table is shown only when the whole block ran.
  The columns that the source renders with \<^verbatim>\<open>str\<close> hold the \<^verbatim>\<open>Timedelta\<close> itself here.
\<close>

definition show_manual_match ::
  "(pystr \<Rightarrow> error + int) \<Rightarrow> segment list \<Rightarrow> segment list \<Rightarrow> error + pyval \<Rightarrow> error + pyval
     \<Rightarrow> error + manual_pair list" where
  "show_manual_match conv eng kor eng_idx_txt kor_idx_txt =
     (case eng_idx_txt of Inl err \<Rightarrow> Inl err | Inr ev \<Rightarrow>
     (case py_list ev of Inl err \<Rightarrow> Inl err | Inr eng_idx \<Rightarrow>
     (case kor_idx_txt of Inl err \<Rightarrow> Inl err | Inr kv \<Rightarrow>
     (case py_list kv of Inl err \<Rightarrow> Inl err | Inr kor_idx \<Rightarrow>
     (case iloc conv eng eng_idx of Inl err \<Rightarrow> Inl err | Inr sel_eng \<Rightarrow>
     (case iloc conv kor kor_idx of Inl err \<Rightarrow> Inl err | Inr sel_kor \<Rightarrow>
        Inr (map (\<lambda>(e, k).
               \<lparr>start_time_ENG = start_time e, ENG_text = seg_text e,
                start_time_KOR = start_time k, KOR_text = seg_text k,
                interval = start_time k - start_time e\<rparr>)
             (zip sel_eng sel_kor))))))))"

section \<open>Example frames\<close>

text \<open>
  The frames of the specification's scenario (times 0 s and 5 s against 0.3 s and
  10 s), a session holding them, and small frames with repeated start times.
\<close>

definition scenario_eng :: "segment list" where
  "scenario_eng =
     [\<lparr>start_time = 0, end_time = seconds 1, seg_text = str ''A''\<rparr>,
      \<lparr>start_time = seconds 5, end_time = seconds 6, seg_text = str ''B''\<rparr>]"

definition scenario_kor :: "segment list" where
  "scenario_kor =
     [\<lparr>start_time = millis 300, end_time = seconds 1, seg_text = str ''a''\<rparr>,
      \<lparr>start_time = seconds 10, end_time = seconds 11, seg_text = str ''c''\<rparr>]"

definition scenario_session :: session where
  "scenario_session =
     \<lparr>eng_df = scenario_eng, kor_df = scenario_kor, kor_shifted = None,
      matched = None, csv_file = None\<rparr>"

definition dup_eng :: "segment list" where
  "dup_eng = [\<lparr>start_time = 0, end_time = seconds 1, seg_text = str ''A''\<rparr>]"

definition dup_kor :: "segment list" where
  "dup_kor =
     [\<lparr>start_time = 0, end_time = seconds 1, seg_text = str ''a''\<rparr>,
      \<lparr>start_time = 0, end_time = seconds 2, seg_text = str ''b''\<rparr>]"

definition tied_eng :: "segment list" where
  "tied_eng =
     [\<lparr>start_time = 0, end_time = seconds 1, seg_text = str ''A''\<rparr>,
      \<lparr>start_time = 0, end_time = seconds 1, seg_text = str ''B''\<rparr>]"


text \<open>
  Subtitles for the language filter: Latin text, Hangul text, empty text, mixed text
  with a line break, and texts at and just outside the two ends of the Hangul block.
\<close>

definition filter_subs :: "segment list" where
  "filter_subs =
     [\<lparr>start_time = 0, end_time = seconds 1, seg_text = str ''Hi''\<rparr>,
      \<lparr>start_time = seconds 1, end_time = seconds 2, seg_text = [0xD55C, 0xAE00]\<rparr>,
      \<lparr>start_time = seconds 2, end_time = seconds 3, seg_text = []\<rparr>,
      \<lparr>start_time = seconds 3, end_time = seconds 4, seg_text = [72, 10, 0xAC00]\<rparr>,
      \<lparr>start_time = seconds 4, end_time = seconds 5, seg_text = [0xD7A3]\<rparr>,
      \<lparr>start_time = seconds 5, end_time = seconds 6, seg_text = [0xABFF, 0xD7A4]\<rparr>]"

text \<open>
  A conversion of strings that refuses every string, for the evaluations in which no
  string element occurs.
\<close>

definition no_conv :: "pystr \<Rightarrow> error + int" where
  "no_conv s = Inl ValueError"

section \<open>Auxiliary facts\<close>

subsection \<open>The two searches on ascending keys\<close>


lemma le_iff_takeWhile:
  assumes "sorted rv" "i < length rv"
  shows "(rv ! i \<le> x) = (i < length (takeWhile (\<lambda>v. v \<le> (x::int)) rv))"
proof
  assume le: "rv ! i \<le> x"
  show "i < length (takeWhile (\<lambda>v. v \<le> x) rv)"
  proof (rule ccontr)
    let ?c = "length (takeWhile (\<lambda>v. v \<le> x) rv)"
    assume "\<not> i < ?c"
    then have ci: "?c \<le> i" by simp
    with assms have "?c < length rv" by simp
    then have "\<not> rv ! ?c \<le> x" by (rule nth_length_takeWhile)
    moreover have "rv ! ?c \<le> rv ! i" using assms ci by (simp add: sorted_nth_mono)
    ultimately show False using le by simp
  qed
next
  assume lt: "i < length (takeWhile (\<lambda>v. v \<le> x) rv)"
  then have "takeWhile (\<lambda>v. v \<le> x) rv ! i \<in> set (takeWhile (\<lambda>v. v \<le> x) rv)" by simp
  then have "takeWhile (\<lambda>v. v \<le> x) rv ! i \<le> x" by (blast dest: set_takeWhileD)
  then show "rv ! i \<le> x" using lt by (simp add: takeWhile_nth)
qed

lemma lt_iff_takeWhile_rev:
  assumes "sorted rv" "i < length rv"
  shows "(rv ! i < x) = (i < length rv - length (takeWhile (\<lambda>v. (x::int) \<le> v) (rev rv)))"
proof -
  let ?q = "length (takeWhile (\<lambda>v. x \<le> v) (rev rv))"
  let ?n = "length rv"
  have qn: "?q \<le> ?n" using length_takeWhile_le [of "\<lambda>v. x \<le> v" "rev rv"] by simp
  show ?thesis
  proof
    assume lt: "rv ! i < x"
    show "i < ?n - ?q"
    proof (rule ccontr)
      assume "\<not> i < ?n - ?q"
      then have k: "?n - 1 - i < ?q" using assms(2) qn by arith
      then have "takeWhile (\<lambda>v. x \<le> v) (rev rv) ! (?n - 1 - i) \<in> set (takeWhile (\<lambda>v. x \<le> v) (rev rv))"
        by simp
      then have "x \<le> takeWhile (\<lambda>v. x \<le> v) (rev rv) ! (?n - 1 - i)" by (blast dest: set_takeWhileD)
      then have "x \<le> rev rv ! (?n - 1 - i)" using k by (simp add: takeWhile_nth)
      moreover have "rev rv ! (?n - 1 - i) = rv ! i" using assms(2) by (simp add: rev_nth)
      ultimately show False using lt by simp
    qed
  next
    assume il: "i < ?n - ?q"
    then have q: "?q < length (rev rv)" by simp
    then have "\<not> x \<le> rev rv ! ?q" by (rule nth_length_takeWhile)
    moreover have "rev rv ! ?q = rv ! (?n - Suc ?q)" using q by (simp add: rev_nth)
    moreover have "rv ! i \<le> rv ! (?n - Suc ?q)" using assms il by (intro sorted_nth_mono) auto
    ultimately show "rv ! i < x" by simp
  qed
qed

lemma backward_Some:
  assumes "sorted rv" "asof_join_backward rv tol x = Some b"
  shows "b < length rv \<and> rv ! b \<le> x \<and> x - rv ! b \<le> tol \<and> (\<forall>i<length rv. rv ! i \<le> x \<longrightarrow> i \<le> b)"
proof -
  let ?c = "length (takeWhile (\<lambda>v. v \<le> x) rv)"
  from assms(2) have c: "?c \<noteq> 0" and b: "b = ?c - 1" and t: "x - rv ! b \<le> tol"
    by (auto simp: asof_join_backward_def Let_def split: if_splits)
  have "?c \<le> length rv" by (rule length_takeWhile_le)
  then have bl: "b < length rv" using c b by arith
  have "b < ?c" using c b by arith
  then have "rv ! b \<le> x" using le_iff_takeWhile [OF assms(1) bl] by simp
  moreover have "\<forall>i<length rv. rv ! i \<le> x \<longrightarrow> i \<le> b"
    using le_iff_takeWhile [OF assms(1)] b by fastforce
  ultimately show ?thesis using bl t by simp
qed

lemma backward_None:
  assumes "sorted rv" "asof_join_backward rv tol x = None" "i < length rv" "rv ! i \<le> x"
  shows "tol < x - rv ! i"
proof -
  let ?c = "length (takeWhile (\<lambda>v. v \<le> x) rv)"
  have ic: "i < ?c" using le_iff_takeWhile [OF assms(1,3)] assms(4) by simp
  then have c: "?c \<noteq> 0" by arith
  with assms(2) have t: "tol < x - rv ! (?c - 1)"
    by (auto simp: asof_join_backward_def Let_def split: if_splits)
  have "?c \<le> length rv" by (rule length_takeWhile_le)
  then have "rv ! i \<le> rv ! (?c - 1)" using ic assms(1) by (intro sorted_nth_mono) auto
  then show ?thesis using t by simp
qed

lemma forward_Some:
  assumes "sorted rv" "asof_join_forward rv tol x = Some f"
  shows "f < length rv \<and> x \<le> rv ! f \<and> rv ! f - x \<le> tol \<and> (\<forall>i<length rv. x \<le> rv ! i \<longrightarrow> f \<le> i)"
proof -
  let ?p = "length rv - length (takeWhile (\<lambda>v. x \<le> v) (rev rv))"
  from assms(2) have p: "?p \<noteq> length rv" and f: "f = ?p" and t: "rv ! f - x \<le> tol"
    by (auto simp: asof_join_forward_def Let_def split: if_splits)
  have fl: "f < length rv" using p f by arith
  have "\<not> rv ! f < x" using lt_iff_takeWhile_rev [OF assms(1) fl, of x] f by simp
  moreover have "\<forall>i<length rv. x \<le> rv ! i \<longrightarrow> f \<le> i"
    using lt_iff_takeWhile_rev [OF assms(1), of _ x] f by fastforce
  ultimately show ?thesis using fl t by simp
qed

lemma forward_None:
  assumes "sorted rv" "asof_join_forward rv tol x = None" "i < length rv" "x \<le> rv ! i"
  shows "tol < rv ! i - x"
proof -
  let ?p = "length rv - length (takeWhile (\<lambda>v. x \<le> v) (rev rv))"
  have ip: "?p \<le> i" using lt_iff_takeWhile_rev [OF assms(1,3), of x] assms(4) by simp
  then have p: "?p \<noteq> length rv" using assms(3) by arith
  with assms(2) have t: "tol < rv ! ?p - x"
    by (auto simp: asof_join_forward_def Let_def split: if_splits)
  have "rv ! ?p \<le> rv ! i" using ip assms(1,3) by (intro sorted_nth_mono) auto
  then show ?thesis using t by simp
qed

subsection \<open>The nearest search\<close>


lemma nearest_cases:
  assumes "asof_join_nearest rv tol x = Some j"
  shows "(asof_join_backward rv tol x = Some j \<and>
            (\<forall>f. asof_join_forward rv tol x = Some f \<longrightarrow> x - rv ! j \<le> rv ! f - x))
       \<or> (asof_join_forward rv tol x = Some j \<and>
            (\<forall>b. asof_join_backward rv tol x = Some b \<longrightarrow> rv ! j - x < x - rv ! b))"
  using assms by (auto simp: asof_join_nearest_def split: option.splits if_splits)

lemma nearest_None:
  "asof_join_nearest rv tol x = None \<longleftrightarrow>
     asof_join_backward rv tol x = None \<and> asof_join_forward rv tol x = None"
  by (auto simp: asof_join_nearest_def split: option.splits if_splits)

lemma nearest_Some_props:
  assumes s: "sorted rv" and m: "asof_join_nearest rv tol x = Some j"
  shows "j < length rv" and "\<bar>rv ! j - x\<bar> \<le> tol"
    and "\<And>i. i < length rv \<Longrightarrow> \<bar>rv ! j - x\<bar> \<le> \<bar>rv ! i - x\<bar>"
    and "\<And>i. i < length rv \<Longrightarrow> \<bar>rv ! i - x\<bar> = \<bar>rv ! j - x\<bar> \<Longrightarrow> rv ! j \<le> rv ! i"
proof -
  from nearest_cases [OF m] consider
    (bw) "asof_join_backward rv tol x = Some j"
         "\<forall>f. asof_join_forward rv tol x = Some f \<longrightarrow> x - rv ! j \<le> rv ! f - x"
  | (fw) "asof_join_forward rv tol x = Some j"
         "\<forall>b. asof_join_backward rv tol x = Some b \<longrightarrow> rv ! j - x < x - rv ! b"
    by blast
  then have "j < length rv \<and> \<bar>rv ! j - x\<bar> \<le> tol
     \<and> (\<forall>i<length rv. \<bar>rv ! j - x\<bar> \<le> \<bar>rv ! i - x\<bar>)
     \<and> (\<forall>i<length rv. \<bar>rv ! i - x\<bar> = \<bar>rv ! j - x\<bar> \<longrightarrow> rv ! j \<le> rv ! i)"
  proof cases
    case bw
    note B = backward_Some [OF s bw(1)]
    have far: "x - rv ! j \<le> rv ! i - x" if i: "i < length rv" "x \<le> rv ! i" for i
    proof (cases "asof_join_forward rv tol x")
      case None
      from forward_None [OF s None i] B show ?thesis by simp
    next
      case (Some f)
      note F = forward_Some [OF s Some]
      from F i have "f \<le> i" by simp
      then have "rv ! f \<le> rv ! i" using s i by (simp add: sorted_nth_mono)
      moreover from bw(2) Some have "x - rv ! j \<le> rv ! f - x" by simp
      ultimately show ?thesis by simp
    qed
    have near: "rv ! i \<le> rv ! j" if i: "i < length rv" "rv ! i \<le> x" for i
    proof -
      from B i have "i \<le> j" by simp
      then show ?thesis using s B by (simp add: sorted_nth_mono)
    qed
    have d: "\<bar>rv ! j - x\<bar> \<le> \<bar>rv ! i - x\<bar>" if i: "i < length rv" for i
      using far [OF i] near [OF i] B by (cases "x \<le> rv ! i") auto
    have t: "rv ! j \<le> rv ! i" if i: "i < length rv" "\<bar>rv ! i - x\<bar> = \<bar>rv ! j - x\<bar>" for i
      using far [OF i(1)] near [OF i(1)] B i(2) by (cases "x \<le> rv ! i") auto
    show ?thesis using B d t by (auto simp: abs_if)
  next
    case fw
    note F = forward_Some [OF s fw(1)]
    have far: "rv ! j - x < x - rv ! i" if i: "i < length rv" "rv ! i \<le> x" for i
    proof (cases "asof_join_backward rv tol x")
      case None
      from backward_None [OF s None i] F show ?thesis by simp
    next
      case (Some b)
      note B = backward_Some [OF s Some]
      from B i have "i \<le> b" by simp
      then have "rv ! i \<le> rv ! b" using s B by (simp add: sorted_nth_mono)
      moreover from fw(2) Some have "rv ! j - x < x - rv ! b" by simp
      ultimately show ?thesis by simp
    qed
    have near: "rv ! j \<le> rv ! i" if i: "i < length rv" "x \<le> rv ! i" for i
    proof -
      from F i have "j \<le> i" by simp
      then show ?thesis using s i by (simp add: sorted_nth_mono)
    qed
    have d: "\<bar>rv ! j - x\<bar> \<le> \<bar>rv ! i - x\<bar>" if i: "i < length rv" for i
      using far [OF i] near [OF i] F by (cases "x \<le> rv ! i") auto
    have t: "rv ! j \<le> rv ! i" if i: "i < length rv" "\<bar>rv ! i - x\<bar> = \<bar>rv ! j - x\<bar>" for i
      using far [OF i(1)] near [OF i(1)] F i(2) by (cases "x \<le> rv ! i") auto
    show ?thesis using F d t by (auto simp: abs_if)
  qed
  then show "j < length rv" and "\<bar>rv ! j - x\<bar> \<le> tol"
    and "\<And>i. i < length rv \<Longrightarrow> \<bar>rv ! j - x\<bar> \<le> \<bar>rv ! i - x\<bar>"
    and "\<And>i. i < length rv \<Longrightarrow> \<bar>rv ! i - x\<bar> = \<bar>rv ! j - x\<bar> \<Longrightarrow> rv ! j \<le> rv ! i"
    by blast+
qed

lemma nearest_None_props:
  assumes s: "sorted rv" and m: "asof_join_nearest rv tol x = None" and i: "i < length rv"
  shows "tol < \<bar>rv ! i - x\<bar>"
proof -
  from m have b: "asof_join_backward rv tol x = None" and f: "asof_join_forward rv tol x = None"
    by (simp_all add: nearest_None)
  show ?thesis
  proof (cases "x \<le> rv ! i")
    case True
    from forward_None [OF s f i True] show ?thesis by simp
  next
    case False
    then have "rv ! i \<le> x" by simp
    from backward_None [OF s b i this] show ?thesis by simp
  qed
qed

lemma nearest_tie_index:
  assumes s: "sorted rv" and d: "distinct rv" and m: "asof_join_nearest rv tol x = Some j"
    and i: "i < length rv" and tie: "\<bar>rv ! i - x\<bar> = \<bar>rv ! j - x\<bar>"
  shows "j \<le> i"
proof (rule ccontr)
  assume "\<not> j \<le> i"
  then have ij: "i < j" by simp
  have jl: "j < length rv" by (rule nearest_Some_props(1) [OF s m])
  have "rv ! i \<le> rv ! j" using s ij jl by (simp add: sorted_nth_mono)
  moreover have "rv ! j \<le> rv ! i" by (rule nearest_Some_props(4) [OF s m i tie])
  ultimately have "rv ! i = rv ! j" by simp
  then have "i = j" using d i jl by (simp add: nth_eq_iff_index_eq)
  then show False using ij by simp
qed

subsection \<open>Sorting and the merged frame\<close>


lemma sorted_sort_values: "sorted (map start_time (sort_values df))"
  by (simp add: sort_values_def)

lemma set_sort_values: "set (sort_values df) = set df"
  by (simp add: sort_values_def)

lemma length_sort_values: "length (sort_values df) = length df"
  by (simp add: sort_values_def)

lemma distinct_sort_values:
  "distinct (map start_time df) \<Longrightarrow> distinct (map start_time (sort_values df))"
proof -
  assume d: "distinct (map start_time df)"
  have "mset (map start_time (sort_values df)) = mset (map start_time df)"
    by (simp add: sort_values_def)
  then show ?thesis using d by (metis mset_eq_imp_distinct_iff)
qed

lemma length_right_indexer: "length (right_indexer right tol left) = length left"
  by (simp add: right_indexer_def)

lemma set_dropna: "set (dropna xs) = {x. Some x \<in> set xs}"
  by (induction xs rule: dropna.induct) auto

lemma set_dropna_map:
  "set (dropna (map (map_option f) xs)) = {f j | j. Some j \<in> set xs}"
proof (induction xs)
  case Nil
  show ?case by simp
next
  case (Cons a xs)
  show ?case
  proof (cases a)
    case None
    with Cons show ?thesis by auto
  next
    case (Some y)
    with Cons show ?thesis by auto
  qed
qed

lemma set_unique: "set (unique xs) = set xs"
  by (simp add: unique_def)

lemma merged_times:
  "map (\<lambda>(l, r). map_option start_time r) (map2 (\<lambda>l j. (l, map_option ((!) k2) j)) e2 idx)
     = map (map_option (\<lambda>j. start_time (k2 ! j))) (take (length e2) idx)"
  by (induction e2 idx rule: list_induct2') (simp_all add: option.map_comp comp_def)

lemma merged_pairs:
  "map (\<lambda>(l, r). (seg_text l, map_option seg_text r)) (map2 (\<lambda>l j. (l, map_option ((!) k2) j)) e2 idx)
     = map2 (\<lambda>l j. (seg_text l, map_option (\<lambda>j. seg_text (k2 ! j)) j)) e2 idx"
  by (induction e2 idx rule: list_induct2') (simp_all add: option.map_comp comp_def)

lemma automatic_matching_eq:
  "automatic_matching eng shifted =
     Inr (map2 (\<lambda>l j. (seg_text l, map_option (\<lambda>j. seg_text (sort_values shifted ! j)) j))
            (sort_values eng) (right_indexer (sort_values shifted) tolerance (sort_values eng))
          @ map (\<lambda>c. ([], Some (seg_text c)))
              (filter (\<lambda>c. start_time c \<notin>
                   {start_time (sort_values shifted ! j) | j.
                      Some j \<in> set (right_indexer (sort_values shifted) tolerance (sort_values eng))})
                 (sort_values shifted)))"
proof -
  let ?e2 = "sort_values eng" and ?k2 = "sort_values shifted"
  let ?idx = "right_indexer ?k2 tolerance ?e2"
  have m: "merge_asof ?e2 ?k2 tolerance = Inr (map2 (\<lambda>l j. (l, map_option ((!) ?k2) j)) ?e2 ?idx)"
    by (simp add: merge_asof_def sorted_sort_values)
  have t: "set (unique (dropna (map (map_option (\<lambda>j. start_time (?k2 ! j))) (take (length ?e2) ?idx))))
         = {start_time (?k2 ! j) | j. Some j \<in> set ?idx}"
    by (simp add: set_unique set_dropna_map length_right_indexer)
  show ?thesis
    unfolding automatic_matching_def Let_def m sum.case merged_times merged_pairs t
    by (simp add: comp_def)
qed

subsection \<open>Evaluation of the example frames\<close>

lemma str_A: "str ''A'' = [65]" "str ''B'' = [66]" "str ''a'' = [97]" "str ''c'' = [99]" "str ''b'' = [98]"
  by (simp_all add: str_def)

lemmas eval_defs = scenario_eng_def scenario_kor_def sort_values_def right_indexer_def
  asof_join_nearest_def asof_join_backward_def asof_join_forward_def tolerance_def
  seconds_def millis_def str_def Let_def

lemma sc_idx: "right_indexer (sort_values scenario_kor) tolerance (sort_values scenario_eng) = [Some 0, None]"
  by (simp add: eval_defs)

lemma sc_auto: "automatic_matching scenario_eng scenario_kor =
   Inr [(str ''A'', Some (str ''a'')), (str ''B'', None), ([], Some (str ''c''))]"
  by (simp add: automatic_matching_def merge_asof_def unique_def eval_defs)

lemma sc_run: "run_automatic_matching (apply_shift scenario_session 0) =
   Inr ((apply_shift scenario_session 0)
        \<lparr>matched := Some [(str ''A'', Some (str ''a'')), (str ''B'', None), ([], Some (str ''c''))],
         csv_file := Some [(str ''A'', str ''a''), (str ''B'', []), ([], str ''c'')]\<rparr>)"
proof -
  have "shift scenario_kor 0 = scenario_kor" by (simp add: shift_def scenario_kor_def)
  then show ?thesis
    by (simp add: run_automatic_matching_def apply_shift_def scenario_session_def sc_auto to_csv_def)
qed

subsection \<open>The language filter, the shift, and the frames with repeated times\<close>

lemma has_kor_replace_newline: "has_kor (replace_newline t) = has_kor t"
  by (induction t) (auto simp: has_kor_def replace_newline_def)

lemma parse_en:
  "parse_srt_to_df subs ''en'' = map row_of (filter (\<lambda>s. \<not> has_kor (seg_text s)) subs)"
  by (induction subs) (simp_all add: Let_def has_kor_replace_newline)

lemma parse_ko:
  "parse_srt_to_df subs ''ko'' = map row_of (filter (\<lambda>s. has_kor (seg_text s)) subs)"
  by (induction subs) (simp_all add: Let_def has_kor_replace_newline)

lemma has_kor_row_of: "has_kor (seg_text (row_of s)) = has_kor (seg_text s)"
  by (simp add: row_of_def has_kor_replace_newline)

lemma kor_df_fold: "kor_df (foldl apply_shift s offs) = kor_df s"
  by (induction offs arbitrary: s) (simp_all add: apply_shift_def)

lemma dup_idx: "right_indexer (sort_values dup_kor) tolerance (sort_values dup_eng) = [Some 1]"
  by (simp add: dup_eng_def dup_kor_def eval_defs)

subsection \<open>Unmatched rows and permuted frames\<close>

lemma sorted_filter_start:
  "sorted (map start_time (filter P (sort_values df)))"
  using sorted_filter [of start_time "sort_values df" P] by (simp add: sorted_sort_values)

lemma unmatched_by_position:
  assumes d: "distinct (map start_time k2)" and b: "\<forall>j. Some j \<in> set idx \<longrightarrow> j < length k2"
  shows "filter (\<lambda>c. start_time c \<notin> {start_time (k2 ! j) | j. Some j \<in> set idx}) k2
       = map ((!) k2) (filter (\<lambda>j. Some j \<notin> set idx) [0..<length k2])"
proof -
  let ?T = "{start_time (k2 ! j) | j. Some j \<in> set idx}"
  have "filter (\<lambda>c. start_time c \<notin> ?T) (map ((!) k2) [0..<length k2])
      = map ((!) k2) (filter (\<lambda>j. start_time (k2 ! j) \<notin> ?T) [0..<length k2])"
    by (simp add: filter_map comp_def)
  also have "filter (\<lambda>j. start_time (k2 ! j) \<notin> ?T) [0..<length k2]
           = filter (\<lambda>j. Some j \<notin> set idx) [0..<length k2]"
  proof (rule filter_cong [OF refl])
    fix j assume "j \<in> set [0..<length k2]"
    then have jl: "j < length k2" by simp
    show "(start_time (k2 ! j) \<notin> ?T) = (Some j \<notin> set idx)"
    proof -
      have "Some j \<in> set idx" if "start_time (k2 ! j) \<in> ?T"
      proof -
        from that obtain j' where j': "start_time (k2 ! j) = start_time (k2 ! j')" "Some j' \<in> set idx"
          by blast
        with b have "j' < length k2" by simp
        with d jl j'(1) have "j = j'"
          by (metis distinct_conv_nth length_map nth_map)
        with j'(2) show ?thesis by simp
      qed
      then show ?thesis by blast
    qed
  qed
  finally show ?thesis by (simp add: map_nth)
qed

lemma right_indexer_bound:
  assumes "Some j \<in> set (right_indexer (sort_values shifted) tol e2)"
  shows "j < length (sort_values shifted)"
proof -
  from assms obtain p where p: "p < length e2"
    and "right_indexer (sort_values shifted) tol e2 ! p = Some j"
    by (auto simp: in_set_conv_nth length_right_indexer)
  then have "asof_join_nearest (map start_time (sort_values shifted)) tol (start_time (e2 ! p)) = Some j"
    by (simp add: right_indexer_def)
  from nearest_Some_props(1) [OF sorted_sort_values this] show ?thesis by simp
qed

lemma sort_values_perm:
  assumes "mset df' = mset df" "distinct (map start_time df)"
  shows "sort_values df' = sort_values df"
proof -
  have "inj_on start_time (set df')"
    using assms by (metis distinct_map mset_eq_setD)
  moreover have "mset df' = mset (sort_values df)" using assms(1) by (simp add: sort_values_def)
  ultimately show ?thesis
    unfolding sort_values_def
    by (intro sort_key_inj_key_eq) (simp_all add: sort_values_def)
qed

lemma tied_auto:
  "automatic_matching tied_eng dup_eng = Inr [(str ''A'', Some (str ''A'')), (str ''B'', Some (str ''A''))]"
  "automatic_matching (rev tied_eng) dup_eng = Inr [(str ''B'', Some (str ''A'')), (str ''A'', Some (str ''A''))]"
  by (simp_all add: automatic_matching_def merge_asof_def unique_def tied_eng_def dup_eng_def eval_defs)

lemma dup_auto:
  "automatic_matching dup_eng dup_kor = Inr [(str ''A'', Some (str ''b''))]"
  by (simp add: automatic_matching_def merge_asof_def unique_def dup_kor_def dup_eng_def eval_defs)

subsection \<open>Positional selection and the manual pairs\<close>

lemma asarray_intp_ints:
  assumes "\<forall>i \<in> set ixs. - (2 ^ 63) \<le> i \<and> i < 2 ^ 63"
  shows "asarray_intp conv (map EInt ixs) = Inr ixs"
  using assms by (induction ixs) (simp_all add: intp_of_int_def)


lemma iloc_ints:
  assumes "\<forall>i \<in> set ixs. - int (length df) \<le> i \<and> i < int (length df)"
    and "length df < 2 ^ 63"
  shows "iloc conv df (map EInt ixs) = Inr (map (\<lambda>i. df ! iloc_pos (length df) i) ixs)"
proof -
  have "int (length df) < 2 ^ 63" using assms(2) by (simp flip: of_nat_less_iff)
  with assms(1) have "\<forall>i \<in> set ixs. - (2 ^ 63) \<le> i \<and> i < 2 ^ 63" by fastforce
  then have a: "asarray_intp conv (map EInt ixs) = Inr ixs" by (rule asarray_intp_ints)
  have c: "\<not> list_ex (\<lambda>i. i \<ge> int (length df) \<or> i < - int (length df)) ixs"
    using assms(1) by (auto simp: list_ex_iff)
  show ?thesis unfolding iloc_def a using c by (simp add: Let_def)
qed




lemma show_manual_match_ints:
  assumes "py_list ev = Inr (map EInt ei)" "py_list kv = Inr (map EInt ki)"
    and "\<forall>i \<in> set ei. - int (length eng) \<le> i \<and> i < int (length eng)"
    and "\<forall>i \<in> set ki. - int (length kor) \<le> i \<and> i < int (length kor)"
    and "length eng < 2 ^ 63" "length kor < 2 ^ 63"
  shows "show_manual_match conv eng kor (Inr ev) (Inr kv) =
     Inr (map (\<lambda>(e, k).
               \<lparr>start_time_ENG = start_time e, ENG_text = seg_text e,
                start_time_KOR = start_time k, KOR_text = seg_text k,
                interval = start_time k - start_time e\<rparr>)
            (zip (map (\<lambda>i. eng ! iloc_pos (length eng) i) ei)
                 (map (\<lambda>i. kor ! iloc_pos (length kor) i) ki)))"
  unfolding show_manual_match_def
  by (simp add: assms(1,2) iloc_ints [OF assms(3,5)] iloc_ints [OF assms(4,6)])




lemma manual_scenario:
  "show_manual_match no_conv scenario_eng scenario_kor
     (Inr (VTuple [EInt 1, EInt (- 2)])) (Inr (VTuple [EInt (- 1)])) =
   Inr [\<lparr>start_time_ENG = seconds 5, ENG_text = str ''B'',
         start_time_KOR = seconds 10, KOR_text = str ''c'', interval = seconds 5\<rparr>]"
  by (simp add: show_manual_match_def iloc_def iloc_pos_def intp_of_int_def
      scenario_eng_def scenario_kor_def seconds_def Let_def)


lemma filter_subs_en:
  "parse_srt_to_df filter_subs ''en'' =
     [\<lparr>start_time = 0, end_time = seconds 1, seg_text = str ''Hi''\<rparr>,
      \<lparr>start_time = seconds 2, end_time = seconds 3, seg_text = []\<rparr>,
      \<lparr>start_time = seconds 5, end_time = seconds 6, seg_text = [0xABFF, 0xD7A4]\<rparr>]"
  by (simp add: filter_subs_def has_kor_def replace_newline_def row_of_def str_def Let_def)

lemma filter_subs_ko:
  "parse_srt_to_df filter_subs ''ko'' =
     [\<lparr>start_time = seconds 1, end_time = seconds 2, seg_text = [0xD55C, 0xAE00]\<rparr>,
      \<lparr>start_time = seconds 3, end_time = seconds 4, seg_text = [72, 32, 0xAC00]\<rparr>,
      \<lparr>start_time = seconds 4, end_time = seconds 5, seg_text = [0xD7A3]\<rparr>]"
  by (simp add: filter_subs_def has_kor_def replace_newline_def row_of_def str_def Let_def)

section \<open>Claims\<close>

subsection \<open>Nearest-time matching\<close>

text \<open>
  C1 (as amended). For the reference row at position \<open>i\<close> of the sorted English frame,
  the automatic matching puts beside it the text of the comparison row that the
  nearest search selected, or the missing value. The row is missing exactly when
  every comparison start differs from the reference start by more than the tolerance
  of one second. A selected row lies within the tolerance, no comparison row is
  strictly closer, and among the comparison rows at the same distance it has the
  earliest start; when the comparison start times are pairwise distinct it is
  therefore the one with the smallest position. (With repeated comparison start
  times the last position of the selected start is taken, so the tie rule of the
  specification holds for distinct start times only.)
\<close>

theorem nearest_match:
  assumes "i < length eng"
  shows "let e2 = sort_values eng; k2 = sort_values shifted;
             idx = right_indexer k2 tolerance e2; r = e2 ! i
         in (\<exists>final. automatic_matching eng shifted = Inr final
               \<and> final ! i = (seg_text r, map_option (\<lambda>j. seg_text (k2 ! j)) (idx ! i)))
          \<and> ((idx ! i = None) = (\<forall>c \<in> set k2. tolerance < \<bar>start_time c - start_time r\<bar>))
          \<and> (\<forall>j. idx ! i = Some j \<longrightarrow>
                j < length k2
              \<and> \<bar>start_time (k2 ! j) - start_time r\<bar> \<le> tolerance
              \<and> (\<forall>c \<in> set k2. \<not> \<bar>start_time c - start_time r\<bar> < \<bar>start_time (k2 ! j) - start_time r\<bar>)
              \<and> (\<forall>j' < length k2.
                    \<bar>start_time (k2 ! j') - start_time r\<bar> = \<bar>start_time (k2 ! j) - start_time r\<bar> \<longrightarrow>
                      start_time (k2 ! j) \<le> start_time (k2 ! j')
                    \<and> (distinct (map start_time shifted) \<longrightarrow> j \<le> j')))"
proof -
  define e2 where "e2 = sort_values eng"
  define k2 where "k2 = sort_values shifted"
  define idx where "idx = right_indexer k2 tolerance e2"
  define r where "r = e2 ! i"
  define rv where "rv = map start_time k2"
  define x where "x = start_time r"
  have il: "i < length e2" using assms by (simp add: e2_def length_sort_values)
  have s: "sorted rv" by (simp add: rv_def k2_def sorted_sort_values)
  have n: "length rv = length k2" by (simp add: rv_def)
  have at: "idx ! i = asof_join_nearest rv tol x" if "tol = tolerance" for tol
    using il that by (simp add: idx_def right_indexer_def rv_def x_def r_def)
  have nth: "rv ! j = start_time (k2 ! j)" if "j < length k2" for j
    using that by (simp add: rv_def)
  have out: "\<exists>final. automatic_matching eng shifted = Inr final
               \<and> final ! i = (seg_text r, map_option (\<lambda>j. seg_text (k2 ! j)) (idx ! i))"
  proof -
    have "length idx = length e2" by (simp add: idx_def length_right_indexer)
    then show ?thesis
      using il unfolding automatic_matching_eq
      by (simp add: nth_append e2_def [symmetric] k2_def [symmetric] idx_def [symmetric] r_def)
  qed
  have some: "j < length k2
              \<and> \<bar>start_time (k2 ! j) - start_time r\<bar> \<le> tolerance
              \<and> (\<forall>c \<in> set k2. \<not> \<bar>start_time c - start_time r\<bar> < \<bar>start_time (k2 ! j) - start_time r\<bar>)
              \<and> (\<forall>j' < length k2.
                    \<bar>start_time (k2 ! j') - start_time r\<bar> = \<bar>start_time (k2 ! j) - start_time r\<bar> \<longrightarrow>
                      start_time (k2 ! j) \<le> start_time (k2 ! j')
                    \<and> (distinct (map start_time shifted) \<longrightarrow> j \<le> j'))"
    if sj: "idx ! i = Some j" for j
  proof -
    from sj have m: "asof_join_nearest rv tolerance x = Some j" by (simp add: at)
    have jl: "j < length k2" using nearest_Some_props(1) [OF s m] n by simp
    have tl: "\<bar>start_time (k2 ! j) - start_time r\<bar> \<le> tolerance"
      using nearest_Some_props(2) [OF s m] jl by (simp add: nth x_def)
    have best: "\<not> \<bar>start_time c - start_time r\<bar> < \<bar>start_time (k2 ! j) - start_time r\<bar>"
      if "c \<in> set k2" for c
    proof -
      from that obtain p where p: "p < length k2" "k2 ! p = c" by (auto simp: in_set_conv_nth)
      then have "\<bar>rv ! j - x\<bar> \<le> \<bar>rv ! p - x\<bar>" using nearest_Some_props(3) [OF s m] n by simp
      then show ?thesis using p jl by (simp add: nth x_def)
    qed
    have tie: "start_time (k2 ! j) \<le> start_time (k2 ! j')
                    \<and> (distinct (map start_time shifted) \<longrightarrow> j \<le> j')"
      if j': "j' < length k2"
        and eq: "\<bar>start_time (k2 ! j') - start_time r\<bar> = \<bar>start_time (k2 ! j) - start_time r\<bar>" for j'
    proof -
      have e: "\<bar>rv ! j' - x\<bar> = \<bar>rv ! j - x\<bar>" using eq j' jl by (simp add: nth x_def)
      have l: "j' < length rv" using j' n by simp
      have "rv ! j \<le> rv ! j'" by (rule nearest_Some_props(4) [OF s m l e])
      moreover have "j \<le> j'" if "distinct (map start_time shifted)"
      proof -
        from that have "distinct rv" by (simp add: rv_def k2_def distinct_sort_values)
        then show ?thesis by (rule nearest_tie_index [OF s _ m l e])
      qed
      ultimately show ?thesis using j' jl by (simp add: nth)
    qed
    show ?thesis using jl tl best tie by blast
  qed
  have none: "(idx ! i = None) = (\<forall>c \<in> set k2. tolerance < \<bar>start_time c - start_time r\<bar>)"
  proof
    assume "idx ! i = None"
    then have m: "asof_join_nearest rv tolerance x = None" by (simp add: at)
    show "\<forall>c \<in> set k2. tolerance < \<bar>start_time c - start_time r\<bar>"
    proof
      fix c assume "c \<in> set k2"
      then obtain p where p: "p < length k2" "k2 ! p = c" by (auto simp: in_set_conv_nth)
      then have "tolerance < \<bar>rv ! p - x\<bar>" using nearest_None_props [OF s m] n by simp
      then show "tolerance < \<bar>start_time c - start_time r\<bar>" using p by (simp add: nth x_def)
    qed
  next
    assume a: "\<forall>c \<in> set k2. tolerance < \<bar>start_time c - start_time r\<bar>"
    show "idx ! i = None"
    proof (cases "idx ! i")
      case None
      then show ?thesis .
    next
      case (Some j)
      from some [OF Some] have "j < length k2" "\<bar>start_time (k2 ! j) - start_time r\<bar> \<le> tolerance"
        by simp_all
      moreover from this(1) have "k2 ! j \<in> set k2" by simp
      ultimately show ?thesis using a by fastforce
    qed
  qed
  show ?thesis
    unfolding Let_def e2_def [symmetric] k2_def [symmetric] idx_def [symmetric] r_def [symmetric]
    using out none some by blast
qed

theorem nearest_match_witness:
  "(0::nat) < length scenario_eng \<and> (1::nat) < length scenario_eng
   \<and> right_indexer (sort_values scenario_kor) tolerance (sort_values scenario_eng) ! 0 = Some 0
   \<and> right_indexer (sort_values scenario_kor) tolerance (sort_values scenario_eng) ! 1 = None
   \<and> distinct (map start_time scenario_kor)
   \<and> \<bar>start_time (sort_values scenario_kor ! 0) - start_time (sort_values scenario_eng ! 0)\<bar> \<le> tolerance
   \<and> \<not> \<bar>start_time (sort_values scenario_kor ! 1) - start_time (sort_values scenario_eng ! 0)\<bar>
           < \<bar>start_time (sort_values scenario_kor ! 0) - start_time (sort_values scenario_eng ! 0)\<bar>
   \<and> tolerance < \<bar>start_time (sort_values scenario_kor ! 0) - start_time (sort_values scenario_eng ! 1)\<bar>
   \<and> tolerance < \<bar>start_time (sort_values scenario_kor ! 1) - start_time (sort_values scenario_eng ! 1)\<bar>
   \<and> automatic_matching scenario_eng scenario_kor =
         Inr [(str ''A'', Some (str ''a'')), (str ''B'', None), ([], Some (str ''c''))]"
  using nearest_match [of 0 scenario_eng scenario_kor] nearest_match [of 1 scenario_eng scenario_kor]
  by (simp add: Let_def sc_idx sc_auto) (simp add: eval_defs)

text \<open>
  The tie rule as the specification states it fails on repeated start times: two
  comparison rows start at 0, the reference row starts at 0, both are at distance 0,
  and the matcher selects position 1, not the earlier position 0.
\<close>

theorem nearest_match_tie_counterexample:
  "right_indexer (sort_values dup_kor) tolerance (sort_values dup_eng) ! 0 = Some 1
   \<and> \<bar>start_time (sort_values dup_kor ! 0) - start_time (sort_values dup_eng ! 0)\<bar>
       = \<bar>start_time (sort_values dup_kor ! 1) - start_time (sort_values dup_eng ! 0)\<bar>
   \<and> \<not> (1::nat) \<le> 0"
  by (simp add: dup_idx) (simp add: dup_eng_def dup_kor_def sort_values_def)

subsection \<open>The final frame\<close>

text \<open>
  C2. The automatic matching always returns a frame: the matched rows, one per
  reference row (as many as the English frame has rows), followed by one row with
  empty English text for every comparison row whose start time was never selected,
  in the ascending start order of the sorted comparison frame. Its length is the
  number of reference rows plus the number of these never-selected comparison rows.
  When the comparison start times are pairwise distinct, the never-selected rows are
  the rows at the positions that no reference row selected.
\<close>

theorem final_output_shape:
  "let e2 = sort_values eng; k2 = sort_values shifted;
       idx = right_indexer k2 tolerance e2;
       matched_pairs = map2 (\<lambda>l j. (seg_text l, map_option (\<lambda>j. seg_text (k2 ! j)) j)) e2 idx;
       never_selected =
         filter (\<lambda>c. start_time c \<notin> {start_time (k2 ! j) | j. Some j \<in> set idx}) k2;
       final = matched_pairs @ map (\<lambda>c. ([], Some (seg_text c))) never_selected
   in automatic_matching eng shifted = Inr final
    \<and> length matched_pairs = length eng
    \<and> length final = length eng + length never_selected
    \<and> sorted (map start_time never_selected)
    \<and> (distinct (map start_time shifted) \<longrightarrow>
          never_selected = map ((!) k2) (filter (\<lambda>j. Some j \<notin> set idx) [0..<length k2]))"
proof -
  define k2 where "k2 = sort_values shifted"
  define idx where "idx = right_indexer k2 tolerance (sort_values eng)"
  have pos: "filter (\<lambda>c. start_time c \<notin> {start_time (k2 ! j) | j. Some j \<in> set idx}) k2
       = map ((!) k2) (filter (\<lambda>j. Some j \<notin> set idx) [0..<length k2])"
    if "distinct (map start_time shifted)"
  proof (rule unmatched_by_position)
    show "distinct (map start_time k2)" using that by (simp add: k2_def distinct_sort_values)
    show "\<forall>j. Some j \<in> set idx \<longrightarrow> j < length k2"
      unfolding idx_def k2_def by (blast intro: right_indexer_bound)
  qed
  have rest: "automatic_matching eng shifted =
      Inr (map2 (\<lambda>l j. (seg_text l, map_option (\<lambda>j. seg_text (k2 ! j)) j)) (sort_values eng) idx
           @ map (\<lambda>c. ([], Some (seg_text c)))
               (filter (\<lambda>c. start_time c \<notin> {start_time (k2 ! j) | j. Some j \<in> set idx}) k2))
    \<and> length (map2 (\<lambda>l j. (seg_text l, map_option (\<lambda>j. seg_text (k2 ! j)) j)) (sort_values eng) idx)
        = length eng
    \<and> sorted (map start_time
         (filter (\<lambda>c. start_time c \<notin> {start_time (k2 ! j) | j. Some j \<in> set idx}) k2))"
    unfolding idx_def k2_def
    by (simp add: automatic_matching_eq length_right_indexer length_sort_values sorted_filter_start)
  show ?thesis
    unfolding Let_def k2_def [symmetric] idx_def [symmetric]
    using rest pos by simp
qed

theorem final_output_shape_witness:
  "distinct (map start_time scenario_kor)
   \<and> automatic_matching scenario_eng scenario_kor =
         Inr [(str ''A'', Some (str ''a'')), (str ''B'', None), ([], Some (str ''c''))]
   \<and> length scenario_eng = 2
   \<and> filter (\<lambda>c. start_time c \<notin> {start_time (sort_values scenario_kor ! j) | j.
          Some j \<in> set (right_indexer (sort_values scenario_kor) tolerance (sort_values scenario_eng))})
        (sort_values scenario_kor)
      = map ((!) (sort_values scenario_kor)) [1]"
proof -
  have d: "distinct (map start_time scenario_kor)" by (simp add: eval_defs)
  have f: "filter (\<lambda>j. Some j \<notin> set [Some 0, None]) [0..<length (sort_values scenario_kor)] = [1]"
  proof -
    have "length (sort_values scenario_kor) = Suc (Suc 0)"
      by (simp add: length_sort_values scenario_kor_def)
    then show ?thesis by (simp add: upt_conv_Cons)
  qed
  from final_output_shape [of scenario_eng scenario_kor]
  have "distinct (map start_time scenario_kor) \<longrightarrow>
      filter (\<lambda>c. start_time c \<notin> {start_time (sort_values scenario_kor ! j) | j.
          Some j \<in> set (right_indexer (sort_values scenario_kor) tolerance (sort_values scenario_eng))})
        (sort_values scenario_kor)
      = map ((!) (sort_values scenario_kor))
          (filter (\<lambda>j. Some j \<notin> set (right_indexer (sort_values scenario_kor) tolerance
             (sort_values scenario_eng))) [0..<length (sort_values scenario_kor)])"
    unfolding Let_def by (elim conjE)
  with d have "filter (\<lambda>c. start_time c \<notin> {start_time (sort_values scenario_kor ! j) | j.
          Some j \<in> set (right_indexer (sort_values scenario_kor) tolerance (sort_values scenario_eng))})
        (sort_values scenario_kor)
      = map ((!) (sort_values scenario_kor))
          (filter (\<lambda>j. Some j \<notin> set (right_indexer (sort_values scenario_kor) tolerance
             (sort_values scenario_eng))) [0..<length (sort_values scenario_kor)])"
    by (rule rev_mp)
  then have g: "filter (\<lambda>c. start_time c \<notin> {start_time (sort_values scenario_kor ! j) | j.
          Some j \<in> set (right_indexer (sort_values scenario_kor) tolerance (sort_values scenario_eng))})
        (sort_values scenario_kor)
      = map ((!) (sort_values scenario_kor)) [1]"
    unfolding sc_idx f .
  have l: "length scenario_eng = 2" by (simp add: scenario_eng_def)
  from d sc_auto l g show ?thesis by (intro conjI)
qed

text \<open>
  C3. The unmatched rows are the comparison rows whose start time is not among the
  selected start times: selection is keyed by the value of the start time. When the
  comparison start times are pairwise distinct, they are exactly the rows at the
  positions that no reference row selected, each once and in order, so that every
  comparison row is either selected or listed once as unmatched.
\<close>

theorem unmatched_partition:
  "let e2 = sort_values eng; k2 = sort_values shifted;
       idx = right_indexer k2 tolerance e2
   in \<exists>final. automatic_matching eng shifted = Inr final
        \<and> drop (length eng) final =
            map (\<lambda>c. ([], Some (seg_text c)))
              (filter (\<lambda>c. start_time c \<notin> {start_time (k2 ! j) | j. Some j \<in> set idx}) k2)
        \<and> (distinct (map start_time shifted) \<longrightarrow>
             drop (length eng) final =
               map (\<lambda>j. ([], Some (seg_text (k2 ! j))))
                 (filter (\<lambda>j. Some j \<notin> set idx) [0..<length k2]))"
proof -
  define e2 where "e2 = sort_values eng"
  define k2 where "k2 = sort_values shifted"
  define idx where "idx = right_indexer k2 tolerance e2"
  define mp where "mp = map2 (\<lambda>l j. (seg_text l, map_option (\<lambda>j. seg_text (k2 ! j)) j)) e2 idx"
  define ns where "ns = filter (\<lambda>c. start_time c \<notin> {start_time (k2 ! j) | j. Some j \<in> set idx}) k2"
  have eq: "automatic_matching eng shifted = Inr (mp @ map (\<lambda>c. ([], Some (seg_text c))) ns)"
    unfolding automatic_matching_eq mp_def ns_def idx_def k2_def e2_def ..
  have len: "length mp = length eng"
    by (simp add: mp_def idx_def e2_def length_right_indexer length_sort_values)
  have pos: "ns = map ((!) k2) (filter (\<lambda>j. Some j \<notin> set idx) [0..<length k2])"
    if "distinct (map start_time shifted)"
    unfolding ns_def
  proof (rule unmatched_by_position)
    show "distinct (map start_time k2)" using that by (simp add: k2_def distinct_sort_values)
    show "\<forall>j. Some j \<in> set idx \<longrightarrow> j < length k2"
      unfolding idx_def k2_def by (blast intro: right_indexer_bound)
  qed
  have dr: "drop (length eng) (mp @ map (\<lambda>c. ([], Some (seg_text c))) ns) = map (\<lambda>c. ([], Some (seg_text c))) ns"
    using len by simp
  have ps: "distinct (map start_time shifted) \<longrightarrow>
      drop (length eng) (mp @ map (\<lambda>c. ([], Some (seg_text c))) ns)
      = map (\<lambda>j. ([], Some (seg_text (k2 ! j)))) (filter (\<lambda>j. Some j \<notin> set idx) [0..<length k2])"
  proof
    assume "distinct (map start_time shifted)"
    from pos [OF this] show "drop (length eng) (mp @ map (\<lambda>c. ([], Some (seg_text c))) ns)
      = map (\<lambda>j. ([], Some (seg_text (k2 ! j)))) (filter (\<lambda>j. Some j \<notin> set idx) [0..<length k2])"
      unfolding dr by (simp add: comp_def)
  qed
  show ?thesis
    unfolding Let_def e2_def [symmetric] k2_def [symmetric] idx_def [symmetric] ns_def [symmetric]
    using eq dr ps by blast
qed

theorem unmatched_partition_witness:
  "distinct (map start_time scenario_kor)
   \<and> right_indexer (sort_values scenario_kor) tolerance (sort_values scenario_eng) = [Some 0, None]
   \<and> (\<exists>final. automatic_matching scenario_eng scenario_kor = Inr final
        \<and> drop (length scenario_eng) final = [([], Some (seg_text (sort_values scenario_kor ! 1)))])
   \<and> automatic_matching dup_eng dup_kor = Inr [(str ''A'', Some (str ''b''))]"
proof -
  have d: "distinct (map start_time scenario_kor)" by (simp add: eval_defs)
  have f: "filter (\<lambda>j. Some j \<notin> set [Some 0, None]) [0..<length (sort_values scenario_kor)] = [1]"
  proof -
    have "length (sort_values scenario_kor) = Suc (Suc 0)"
      by (simp add: length_sort_values scenario_kor_def)
    then show ?thesis by (simp add: upt_conv_Cons)
  qed
  from unmatched_partition [of scenario_eng scenario_kor] obtain final where
    fin: "automatic_matching scenario_eng scenario_kor = Inr final" and
    imp: "distinct (map start_time scenario_kor) \<longrightarrow>
           drop (length scenario_eng) final =
             map (\<lambda>j. ([], Some (seg_text (sort_values scenario_kor ! j))))
               (filter (\<lambda>j. Some j \<notin> set (right_indexer (sort_values scenario_kor) tolerance
                    (sort_values scenario_eng))) [0..<length (sort_values scenario_kor)])"
    unfolding Let_def by blast
  from imp d have "drop (length scenario_eng) final =
             map (\<lambda>j. ([], Some (seg_text (sort_values scenario_kor ! j))))
               (filter (\<lambda>j. Some j \<notin> set (right_indexer (sort_values scenario_kor) tolerance
                    (sort_values scenario_eng))) [0..<length (sort_values scenario_kor)])"
    by (rule mp)
  then have "drop (length scenario_eng) final = [([], Some (seg_text (sort_values scenario_kor ! 1)))]"
    unfolding sc_idx f by simp
  with fin have "\<exists>final. automatic_matching scenario_eng scenario_kor = Inr final
        \<and> drop (length scenario_eng) final = [([], Some (seg_text (sort_values scenario_kor ! 1)))]"
    by blast
  then show ?thesis using d sc_idx dup_auto by blast
qed

text \<open>
  C4. A reference row for which the nearest search finds no comparison row within
  the tolerance appears in the final frame with the missing value as its Korean text,
  which the CSV file holds as the empty field. For the scenario of the specification
  (reference rows at 0 s and 5 s, shifted comparison rows at 0.3 s and 10 s) the
  operation stores the frame \<open>[(A, a), (B, missing), ('', c)]\<close> and writes the rows
  \<open>[(A, a), (B, ''), ('', c)]\<close>.
\<close>

theorem unmatched_reference_empty_text:
  "(\<forall>i < length eng.
      right_indexer (sort_values shifted) tolerance (sort_values eng) ! i = None \<longrightarrow>
        (\<exists>final. automatic_matching eng shifted = Inr final
           \<and> final ! i = (seg_text (sort_values eng ! i), None)
           \<and> to_csv final ! i = (seg_text (sort_values eng ! i), [])))
   \<and> run_automatic_matching (apply_shift scenario_session 0) =
       Inr ((apply_shift scenario_session 0)
         \<lparr>matched := Some [(str ''A'', Some (str ''a'')), (str ''B'', None), ([], Some (str ''c''))],
          csv_file := Some [(str ''A'', str ''a''), (str ''B'', []), ([], str ''c'')]\<rparr>)"
proof -
  have g: "\<exists>final. automatic_matching eng shifted = Inr final
           \<and> final ! i = (seg_text (sort_values eng ! i), None)
           \<and> to_csv final ! i = (seg_text (sort_values eng ! i), [])"
    if i: "i < length eng"
      and n: "right_indexer (sort_values shifted) tolerance (sort_values eng) ! i = None" for i
  proof -
    define e2 where "e2 = sort_values eng"
    define k2 where "k2 = sort_values shifted"
    define idx where "idx = right_indexer k2 tolerance e2"
    define mp where "mp = map2 (\<lambda>l j. (seg_text l, map_option (\<lambda>j. seg_text (k2 ! j)) j)) e2 idx"
    define um where "um = map (\<lambda>c. ([]::pystr, Some (seg_text c)))
         (filter (\<lambda>c. start_time c \<notin> {start_time (k2 ! j) | j. Some j \<in> set idx}) k2)"
    have eq: "automatic_matching eng shifted = Inr (mp @ um)"
      unfolding automatic_matching_eq mp_def um_def idx_def k2_def e2_def ..
    have le: "length e2 = length eng" "length idx = length eng"
      by (simp_all add: e2_def idx_def length_sort_values length_right_indexer)
    then have lm: "i < length mp" using i by (simp add: mp_def)
    have "mp ! i = (seg_text (e2 ! i), None)"
      using i le n by (simp add: mp_def idx_def k2_def e2_def)
    then have r: "(mp @ um) ! i = (seg_text (e2 ! i), None)" using lm by (simp add: nth_append)
    have "to_csv (mp @ um) ! i = (seg_text (e2 ! i), [])"
      using lm r by (simp add: to_csv_def nth_append)
    with eq r show ?thesis unfolding e2_def by blast
  qed
  show ?thesis using g sc_run by blast
qed

theorem unmatched_reference_empty_text_witness:
  "(1::nat) < length scenario_eng
   \<and> right_indexer (sort_values scenario_kor) tolerance (sort_values scenario_eng) ! 1 = None
   \<and> (\<exists>final. automatic_matching scenario_eng scenario_kor = Inr final
         \<and> final ! 1 = (seg_text (sort_values scenario_eng ! 1), None)
         \<and> to_csv final ! 1 = (seg_text (sort_values scenario_eng ! 1), []))
   \<and> seg_text (sort_values scenario_eng ! 1) = str ''B''"
proof -
  have a: "(1::nat) < length scenario_eng" by (simp add: scenario_eng_def)
  have b: "right_indexer (sort_values scenario_kor) tolerance (sort_values scenario_eng) ! 1 = None"
    by (simp add: sc_idx)
  have c: "seg_text (sort_values scenario_eng ! 1) = str ''B''"
    by (simp add: scenario_eng_def sort_values_def seconds_def)
  from unmatched_reference_empty_text [of scenario_eng scenario_kor] a b
  have "\<exists>final. automatic_matching scenario_eng scenario_kor = Inr final
         \<and> final ! 1 = (seg_text (sort_values scenario_eng ! 1), None)
         \<and> to_csv final ! 1 = (seg_text (sort_values scenario_eng ! 1), [])"
    by blast
  with a b c show ?thesis by blast
qed

subsection \<open>Permuted rows\<close>

text \<open>
  C10 (as amended). When no two rows of the English frame share a start time and no
  two rows of the shifted Korean frame do, the automatic matching gives the same
  result on any permutation of the rows of either frame. (Rows with equal start times
  keep an order that depends on the order of the input.)
\<close>

theorem matching_permutation_invariant:
  assumes "mset eng' = mset eng" and "mset shifted' = mset shifted"
    and "distinct (map start_time eng)" and "distinct (map start_time shifted)"
  shows "automatic_matching eng' shifted' = automatic_matching eng shifted"
proof -
  have "sort_values eng' = sort_values eng"
    by (rule sort_values_perm [OF assms(1) assms(3)])
  moreover have "sort_values shifted' = sort_values shifted"
    by (rule sort_values_perm [OF assms(2) assms(4)])
  ultimately show ?thesis by (simp add: automatic_matching_def)
qed

theorem matching_permutation_invariant_witness:
  "mset (rev scenario_eng) = mset scenario_eng \<and> mset (rev scenario_kor) = mset scenario_kor
   \<and> distinct (map start_time scenario_eng) \<and> distinct (map start_time scenario_kor)
   \<and> automatic_matching (rev scenario_eng) (rev scenario_kor) =
       Inr [(str ''A'', Some (str ''a'')), (str ''B'', None), ([], Some (str ''c''))]"
proof -
  have d: "distinct (map start_time scenario_eng)" "distinct (map start_time scenario_kor)"
    by (simp_all add: eval_defs)
  have m: "mset (rev scenario_eng) = mset scenario_eng" "mset (rev scenario_kor) = mset scenario_kor"
    by simp_all
  show ?thesis
    using matching_permutation_invariant [OF m d] d by (simp add: sc_auto)
qed

text \<open>
  Two reference rows with the same start time: reversing the frame exchanges the two
  rows of the result, so the result is not invariant under every permutation.
\<close>

theorem matching_permutation_counterexample:
  "mset (rev tied_eng) = mset tied_eng
   \<and> automatic_matching (rev tied_eng) dup_eng \<noteq> automatic_matching tied_eng dup_eng"
  by (simp add: tied_auto str_A)

subsection \<open>The shift\<close>

text \<open>
  C5. The shift keeps the number of rows, sets each row's start to the start minus
  the offset, and leaves each row's end time and text as they were.
\<close>

theorem shift_start_only:
  "length (shift df off) = length df \<and>
   (\<forall>i < length df. start_time (shift df off ! i) = start_time (df ! i) - off
       \<and> end_time (shift df off ! i) = end_time (df ! i)
       \<and> seg_text (shift df off ! i) = seg_text (df ! i))"
  by (simp add: shift_def)

theorem shift_start_only_witness:
  "length (shift scenario_kor (millis 300)) = 2
   \<and> (1::nat) < length scenario_kor
   \<and> start_time (shift scenario_kor (millis 300) ! 1) = seconds 10 - millis 300
   \<and> end_time (shift scenario_kor (millis 300) ! 1) = seconds 11
   \<and> seg_text (shift scenario_kor (millis 300) ! 1) = str ''c''"
  using shift_start_only [of scenario_kor "millis 300"]
  by (simp add: scenario_kor_def)

text \<open>
  C6. "Apply shift" always starts from the loaded Korean frame, which it never
  changes: after any sequence of invocations the stored shifted frame is the loaded
  frame shifted by the last offset alone, and applying the same offset twice gives
  the same session as applying it once.
\<close>

theorem apply_shift_never_compounds:
  "kor_shifted (foldl apply_shift s (offs @ [off])) = Some (shift (kor_df s) off)
   \<and> kor_df (foldl apply_shift s (offs @ [off])) = kor_df s
   \<and> apply_shift (apply_shift s off) off = apply_shift s off"
  by (simp add: kor_df_fold) (simp add: apply_shift_def kor_df_fold)

subsection \<open>The language filter\<close>

text \<open>
  C7. Filtering with \<open>''en''\<close> keeps exactly the subtitles whose text has no code point
  from U+AC00 to U+D7A3 (the Hangul-syllables block), filtering with \<open>''ko''\<close> exactly
  those with at least one, in the order of the input and with each line break of the
  text replaced by a space; the two results together are the rows of all subtitles,
  each in exactly one of them, and a subtitle with empty text is kept by \<open>''en''\<close>
  and dropped by \<open>''ko''\<close>.
\<close>

theorem language_filter_partition:
  "parse_srt_to_df subs ''en'' =
     map (\<lambda>s. \<lparr>start_time = start_time s, end_time = end_time s,
                seg_text = map (\<lambda>c. if c = 10 then 32 else c) (seg_text s)\<rparr>)
       (filter (\<lambda>s. \<not> (\<exists>c \<in> set (seg_text s). 0xAC00 \<le> c \<and> c \<le> 0xD7A3)) subs)
   \<and> parse_srt_to_df subs ''ko'' =
     map (\<lambda>s. \<lparr>start_time = start_time s, end_time = end_time s,
                seg_text = map (\<lambda>c. if c = 10 then 32 else c) (seg_text s)\<rparr>)
       (filter (\<lambda>s. \<exists>c \<in> set (seg_text s). 0xAC00 \<le> c \<and> c \<le> 0xD7A3) subs)
   \<and> mset (parse_srt_to_df subs ''en'') + mset (parse_srt_to_df subs ''ko'') =
       mset (map (\<lambda>s. \<lparr>start_time = start_time s, end_time = end_time s,
                seg_text = map (\<lambda>c. if c = 10 then 32 else c) (seg_text s)\<rparr>) subs)
   \<and> set (parse_srt_to_df subs ''en'') \<inter> set (parse_srt_to_df subs ''ko'') = {}
   \<and> parse_srt_to_df [sub\<lparr>seg_text := []\<rparr>] ''en'' =
       [\<lparr>start_time = start_time sub, end_time = end_time sub, seg_text = []\<rparr>]
   \<and> parse_srt_to_df [sub\<lparr>seg_text := []\<rparr>] ''ko'' = []"
proof -
  have r: "row_of = (\<lambda>s. \<lparr>start_time = start_time s, end_time = end_time s,
                seg_text = map (\<lambda>c. if c = 10 then 32 else c) (seg_text s)\<rparr>)"
    by (rule ext) (simp add: row_of_def replace_newline_def)
  have h: "has_kor t = (\<exists>c \<in> set t. 0xAC00 \<le> c \<and> c \<le> 0xD7A3)" for t
    by (simp add: has_kor_def list_ex_iff)
  have a: "mset (parse_srt_to_df subs ''en'') + mset (parse_srt_to_df subs ''ko'') = mset (map row_of subs)"
    unfolding parse_en parse_ko by (induction subs) simp_all
  have b: "set (parse_srt_to_df subs ''en'') \<inter> set (parse_srt_to_df subs ''ko'') = {}"
  proof -
    have "\<forall>r \<in> set (parse_srt_to_df subs ''en''). \<not> has_kor (seg_text r)"
      unfolding parse_en by (auto simp: has_kor_row_of)
    moreover have "\<forall>r \<in> set (parse_srt_to_df subs ''ko''). has_kor (seg_text r)"
      unfolding parse_ko by (auto simp: has_kor_row_of)
    ultimately show ?thesis by blast
  qed
  have e: "parse_srt_to_df subs ''en'' = map row_of (filter (\<lambda>s. \<not> (\<exists>c \<in> set (seg_text s). 0xAC00 \<le> c \<and> c \<le> 0xD7A3)) subs)"
    unfolding parse_en h ..
  have k: "parse_srt_to_df subs ''ko'' = map row_of (filter (\<lambda>s. \<exists>c \<in> set (seg_text s). 0xAC00 \<le> c \<and> c \<le> 0xD7A3) subs)"
    unfolding parse_ko h ..
  have c: "parse_srt_to_df [sub\<lparr>seg_text := []\<rparr>] ''en'' =
       [\<lparr>start_time = start_time sub, end_time = end_time sub, seg_text = []\<rparr>]"
    "parse_srt_to_df [sub\<lparr>seg_text := []\<rparr>] ''ko'' = []"
    by (simp_all add: has_kor_def replace_newline_def row_of_def Let_def)
  show ?thesis using a b c e k unfolding r by (intro conjI)
qed

theorem language_filter_partition_witness:
  "parse_srt_to_df filter_subs ''en'' =
     [\<lparr>start_time = 0, end_time = seconds 1, seg_text = str ''Hi''\<rparr>,
      \<lparr>start_time = seconds 2, end_time = seconds 3, seg_text = []\<rparr>,
      \<lparr>start_time = seconds 5, end_time = seconds 6, seg_text = [0xABFF, 0xD7A4]\<rparr>]
   \<and> parse_srt_to_df filter_subs ''ko'' =
     [\<lparr>start_time = seconds 1, end_time = seconds 2, seg_text = [0xD55C, 0xAE00]\<rparr>,
      \<lparr>start_time = seconds 3, end_time = seconds 4, seg_text = [72, 32, 0xAC00]\<rparr>,
      \<lparr>start_time = seconds 4, end_time = seconds 5, seg_text = [0xD7A3]\<rparr>]
   \<and> set (parse_srt_to_df filter_subs ''en'') \<inter> set (parse_srt_to_df filter_subs ''ko'') = {}"
proof -
  have "set (parse_srt_to_df filter_subs ''en'') \<inter> set (parse_srt_to_df filter_subs ''ko'') = {}"
    by (rule conjunct1 [OF conjunct2 [OF conjunct2 [OF conjunct2
          [OF language_filter_partition [of filter_subs]]]]])
  with filter_subs_en filter_subs_ko show ?thesis by (intro conjI)
qed

subsection \<open>Manual matching\<close>

text \<open>
  C8. When both texts are tuples or lists of integers, all within the bounds of the
  corresponding track (from \<open>-len\<close> up to \<open>len - 1\<close>, a negative index counting from
  the end), the manual pair builder returns exactly \<open>min (length ei) (length ki)\<close>
  pairs; the \<open>p\<close>-th pair is built from the reference row at the \<open>p\<close>-th English index
  and the comparison row at the \<open>p\<close>-th Korean index, and its \<open>interval\<close> is the
  comparison start minus the reference start. (A frame has fewer than \<open>2 ^ 63\<close> rows.)
\<close>

theorem manual_pairs_zip:
  assumes "\<forall>i \<in> set ei. - int (length eng) \<le> i \<and> i < int (length eng)"
    and "\<forall>i \<in> set ki. - int (length kor) \<le> i \<and> i < int (length kor)"
    and "length eng < 2 ^ 63" and "length kor < 2 ^ 63"
  shows "\<exists>rows.
       show_manual_match conv eng kor (Inr (VTuple (map EInt ei))) (Inr (VTuple (map EInt ki))) = Inr rows
     \<and> show_manual_match conv eng kor (Inr (VList (map EInt ei))) (Inr (VList (map EInt ki))) = Inr rows
     \<and> length rows = min (length ei) (length ki)
     \<and> (\<forall>p < length rows.
           rows ! p =
             (let e = eng ! nat (if ei ! p < 0 then ei ! p + int (length eng) else ei ! p);
                  k = kor ! nat (if ki ! p < 0 then ki ! p + int (length kor) else ki ! p)
              in \<lparr>start_time_ENG = start_time e, ENG_text = seg_text e,
                  start_time_KOR = start_time k, KOR_text = seg_text k,
                  interval = start_time k - start_time e\<rparr>))"
proof -
  have t: "py_list (VTuple (map EInt ei)) = Inr (map EInt ei)" "py_list (VTuple (map EInt ki)) = Inr (map EInt ki)"
    and l: "py_list (VList (map EInt ei)) = Inr (map EInt ei)" "py_list (VList (map EInt ki)) = Inr (map EInt ki)"
    by simp_all
  show ?thesis
    unfolding show_manual_match_ints [OF t assms] show_manual_match_ints [OF l assms]
    by (simp add: iloc_pos_def Let_def)
qed

theorem manual_pairs_zip_witness:
  "length scenario_eng < 2 ^ 63 \<and> length scenario_kor < 2 ^ 63
   \<and> (\<exists>rows. show_manual_match no_conv scenario_eng scenario_kor
                 (Inr (VTuple (map EInt [1, - 2]))) (Inr (VTuple (map EInt [- 1]))) = Inr rows
         \<and> length rows = min (length [1::int, - 2]) (length [- 1::int]))
   \<and> show_manual_match no_conv scenario_eng scenario_kor
        (Inr (VTuple [EInt 1, EInt (- 2)])) (Inr (VTuple [EInt (- 1)])) =
      Inr [\<lparr>start_time_ENG = seconds 5, ENG_text = str ''B'',
            start_time_KOR = seconds 10, KOR_text = str ''c'', interval = seconds 5\<rparr>]"
proof -
  have b: "\<forall>i \<in> set [1::int, - 2]. - int (length scenario_eng) \<le> i \<and> i < int (length scenario_eng)"
    "\<forall>i \<in> set [- 1::int]. - int (length scenario_kor) \<le> i \<and> i < int (length scenario_kor)"
    by (simp_all add: scenario_eng_def scenario_kor_def)
  have c: "length scenario_eng < 2 ^ 63" "length scenario_kor < 2 ^ 63"
    by (simp_all add: scenario_eng_def scenario_kor_def)
  from manual_pairs_zip [OF b c, of no_conv]
  have "\<exists>rows. show_manual_match no_conv scenario_eng scenario_kor
                 (Inr (VTuple (map EInt [1, - 2]))) (Inr (VTuple (map EInt [- 1]))) = Inr rows
         \<and> length rows = min (length [1::int, - 2]) (length [- 1::int])"
    by blast
  with c manual_scenario show ?thesis by (intro conjI)
qed




end
